theory Spec2Isabelle
  imports Main
begin

section \<open>Data model of minesweeper.py\<close>

text \<open>
  A board cell is a Python tuple \<open>(i, j)\<close> of unbounded integers. A Python \<open>set\<close> of
  cells is modelled by a duplicate-free list of its elements; the order of the list is the
  (implementation-defined) iteration order of the set. The general theorems below speak
  about \<open>set xs\<close> and \<open>length xs\<close> only; the examples fix one order.
\<close>

type_synonym cell = "int \<times> int"

text \<open>\<open>set.add(x)\<close>.\<close>

definition set_add :: "'a \<Rightarrow> 'a list \<Rightarrow> 'a list" where
  "set_add x xs = (if x \<in> set xs then xs else xs @ [x])"

text \<open>
  \<open>set.pop()\<close> removes and returns an arbitrary element and raises \<open>KeyError\<close> on the
  empty set. Which element is removed is left open: every function that pops takes a
  chooser \<open>pick\<close>, and the general theorems hold for every chooser.
\<close>

datatype error = KeyError

type_synonym picker = "cell list \<Rightarrow> nat"

definition set_pop :: "picker \<Rightarrow> cell list \<Rightarrow> (cell \<times> cell list) option" where
  "set_pop pick xs =
     (if xs = [] then None
      else let x = xs ! (pick xs mod length xs) in Some (x, removeAll x xs))"

text \<open>class \<open>Sentence\<close>: a set of cells and the number of them that are mines.\<close>

record Sentence =
  cells :: "cell list"
  count :: int

definition get_set_length :: "Sentence \<Rightarrow> nat" where
  "get_set_length s = length (cells s)"

text \<open>\<open>Sentence.known_mines\<close>: the (copied) cell set if \<open>len(cells) == count\<close>, else \<open>None\<close>.\<close>

definition known_mines :: "Sentence \<Rightarrow> cell list option" where
  "known_mines s = (if int (length (cells s)) = count s then Some (cells s) else None)"

text \<open>\<open>Sentence.known_safes\<close>: the (copied) cell set if \<open>count == 0\<close>, else \<open>None\<close>.\<close>

definition known_safes :: "Sentence \<Rightarrow> cell list option" where
  "known_safes s = (if count s = 0 then Some (cells s) else None)"

text \<open>\<open>Sentence.mark_mine\<close> and \<open>Sentence.mark_safe\<close>.\<close>

definition Sentence_mark_mine :: "Sentence \<Rightarrow> cell \<Rightarrow> Sentence" where
  "Sentence_mark_mine s c =
     (if c \<in> set (cells s) then s\<lparr>cells := removeAll c (cells s), count := count s - 1\<rparr>
      else s)"

definition Sentence_mark_safe :: "Sentence \<Rightarrow> cell \<Rightarrow> Sentence" where
  "Sentence_mark_safe s c =
     (if c \<in> set (cells s) then s\<lparr>cells := removeAll c (cells s)\<rparr> else s)"

text \<open>class \<open>MinesweeperAI\<close>.\<close>

record MinesweeperAI =
  height :: int
  width :: int
  moves_made :: "cell list"
  mines :: "cell list"
  safes :: "cell list"
  knowledge :: "Sentence list"

text \<open>\<open>MinesweeperAI.__init__\<close>.\<close>

definition init :: "int \<Rightarrow> int \<Rightarrow> MinesweeperAI" where
  "init h w = \<lparr>height = h, width = w, moves_made = [], mines = [], safes = [], knowledge = []\<rparr>"

text \<open>\<open>MinesweeperAI.mark_mine\<close> and \<open>MinesweeperAI.mark_safe\<close>.\<close>

definition mark_mine :: "MinesweeperAI \<Rightarrow> cell \<Rightarrow> MinesweeperAI" where
  "mark_mine ai c =
     ai\<lparr>mines := set_add c (mines ai),
        knowledge := map (\<lambda>s. Sentence_mark_mine s c) (knowledge ai)\<rparr>"

definition mark_safe :: "MinesweeperAI \<Rightarrow> cell \<Rightarrow> MinesweeperAI" where
  "mark_safe ai c =
     ai\<lparr>safes := set_add c (safes ai),
        knowledge := map (\<lambda>s. Sentence_mark_safe s c) (knowledge ai)\<rparr>"

subsection \<open>\<open>add_knowledge\<close>\<close>

text \<open>
  The two nested \<open>range(cell[k] - 1, cell[k] + 2)\<close> loops, in the order in which they
  visit \<open>(i, j)\<close>.
\<close>

definition nearby :: "cell \<Rightarrow> cell list" where
  "nearby c = List.product [fst c - 1, fst c, fst c + 1] [snd c - 1, snd c, snd c + 1]"

definition in_bounds :: "int \<Rightarrow> int \<Rightarrow> cell \<Rightarrow> bool" where
  "in_bounds h w p \<longleftrightarrow> 0 \<le> fst p \<and> fst p < h \<and> 0 \<le> snd p \<and> snd p < w"

text \<open>
  The body of the neighbour loop: \<open>continue\<close> for the cell itself and for cells in
  \<open>moves_made\<close> or \<open>safes\<close> (known mines are not tested); otherwise add the cell when it
  is on the board.
\<close>

definition mango_step :: "MinesweeperAI \<Rightarrow> cell \<Rightarrow> cell \<Rightarrow> cell list \<Rightarrow> cell list" where
  "mango_step ai c p acc =
     (if p = c \<or> p \<in> set (moves_made ai) \<or> p \<in> set (safes ai) then acc
      else if in_bounds (height ai) (width ai) p then set_add p acc
      else acc)"

definition mangoes :: "MinesweeperAI \<Rightarrow> cell \<Rightarrow> cell list" where
  "mangoes ai c = fold (mango_step ai c) (nearby c) []"

text \<open>\<open>e.get_set().pop()\<close> on the sentence at index \<open>k\<close> of the knowledge list.\<close>

definition pop_cell :: "picker \<Rightarrow> nat \<Rightarrow> MinesweeperAI \<Rightarrow> (cell \<times> MinesweeperAI) option" where
  "pop_cell pick k ai =
     (case set_pop pick (cells (knowledge ai ! k)) of
        None \<Rightarrow> None
      | Some (x, r) \<Rightarrow>
          Some (x, ai\<lparr>knowledge := (knowledge ai)[k := (knowledge ai ! k)\<lparr>cells := r\<rparr>]\<rparr>))"

text \<open>
  The three \<open>for _ in range(size)\<close> loops. Each pops one cell of sentence \<open>k\<close> per
  iteration: the first marks it safe, the second marks it as a mine, the third
  (second pass) marks it safe unless it is a known mine or a move already made.
\<close>

fun drain_safe :: "picker \<Rightarrow> nat \<Rightarrow> nat \<Rightarrow> MinesweeperAI \<Rightarrow> error + MinesweeperAI" where
  "drain_safe pick k 0 ai = Inr ai"
| "drain_safe pick k (Suc n) ai =
     (case pop_cell pick k ai of
        None \<Rightarrow> Inl KeyError
      | Some (x, ai') \<Rightarrow> drain_safe pick k n (mark_safe ai' x))"

fun drain_mine :: "picker \<Rightarrow> nat \<Rightarrow> nat \<Rightarrow> MinesweeperAI \<Rightarrow> error + MinesweeperAI" where
  "drain_mine pick k 0 ai = Inr ai"
| "drain_mine pick k (Suc n) ai =
     (case pop_cell pick k ai of
        None \<Rightarrow> Inl KeyError
      | Some (x, ai') \<Rightarrow> drain_mine pick k n (mark_mine ai' x))"

fun drain_rest :: "picker \<Rightarrow> nat \<Rightarrow> nat \<Rightarrow> MinesweeperAI \<Rightarrow> error + MinesweeperAI" where
  "drain_rest pick k 0 ai = Inr ai"
| "drain_rest pick k (Suc n) ai =
     (case pop_cell pick k ai of
        None \<Rightarrow> Inl KeyError
      | Some (x, ai') \<Rightarrow>
          if x \<in> set (mines ai') \<or> x \<in> set (moves_made ai') then drain_rest pick k n ai'
          else drain_rest pick k n (mark_safe ai' x))"

text \<open>Body of the first pass \<open>for e in self.knowledge\<close>, for the sentence at index \<open>k\<close>.\<close>

definition resolve_one :: "picker \<Rightarrow> nat \<Rightarrow> MinesweeperAI \<Rightarrow> error + MinesweeperAI" where
  "resolve_one pick k ai =
     (let e = knowledge ai ! k in
      if count e = 0 then drain_safe pick k (get_set_length e) ai
      else if count e = int (get_set_length e) then drain_mine pick k (get_set_length e) ai
      else Inr ai)"

text \<open>Body of the second pass \<open>for sentence in self.knowledge\<close>.\<close>

definition sweep_one :: "picker \<Rightarrow> nat \<Rightarrow> MinesweeperAI \<Rightarrow> error + MinesweeperAI" where
  "sweep_one pick k ai =
     (let sentence = knowledge ai ! k in
      if get_set_length sentence = 0 then Inr ai
      else if count sentence = int (length (filter (\<lambda>c. c \<in> set (mines ai)) (cells sentence)))
      then drain_rest pick k (get_set_length sentence) ai
      else Inr ai)"

text \<open>
  A \<open>for\<close> loop over the knowledge list by position. The list itself is never
  extended or shortened inside the loops, only its sentences are mutated.
\<close>

fun for_each :: "(nat \<Rightarrow> MinesweeperAI \<Rightarrow> error + MinesweeperAI) \<Rightarrow> nat list \<Rightarrow>
    MinesweeperAI \<Rightarrow> error + MinesweeperAI" where
  "for_each body [] ai = Inr ai"
| "for_each body (k # ks) ai =
     (case body k ai of Inl e \<Rightarrow> Inl e | Inr ai' \<Rightarrow> for_each body ks ai')"

definition add_knowledge :: "picker \<Rightarrow> MinesweeperAI \<Rightarrow> cell \<Rightarrow> int \<Rightarrow> error + MinesweeperAI" where
  "add_knowledge pick ai c n =
     (let m = mangoes ai c;
          ai1 = ai\<lparr>moves_made := set_add c (moves_made ai)\<rparr>;
          ai2 = mark_safe ai1 c;
          ai3 = ai2\<lparr>knowledge := knowledge ai2 @ [\<lparr>cells = m, count = n\<rparr>]\<rparr>
      in case for_each (resolve_one pick) [0 ..< length (knowledge ai3)] ai3 of
           Inl e \<Rightarrow> Inl e
         | Inr ai4 \<Rightarrow> for_each (sweep_one pick) [0 ..< length (knowledge ai4)] ai4)"

subsection \<open>Move queries\<close>

text \<open>\<open>make_safe_move\<close>: the first cell of \<open>safes\<close>, in iteration order, not in \<open>moves_made\<close>.\<close>

definition make_safe_move :: "MinesweeperAI \<Rightarrow> cell option" where
  "make_safe_move ai = find (\<lambda>move. move \<notin> set (moves_made ai)) (safes ai)"

text \<open>
  \<open>make_random_move\<close>: \<open>i\<close> runs over \<open>range(self.width - 1)\<close>, \<open>j\<close> over
  \<open>range(self.height - 1)\<close>; the first \<open>(i, j)\<close> that is neither a known mine nor a move
  made is returned, and the function falls off its end (\<open>None\<close>) otherwise.
\<close>

definition make_random_move :: "MinesweeperAI \<Rightarrow> cell option" where
  "make_random_move ai =
     find (\<lambda>p. \<not> (p \<in> set (mines ai) \<or> p \<in> set (moves_made ai)))
       (List.product [0 .. width ai - 1 - 1] [0 .. height ai - 1 - 1])"

subsection \<open>The public operations and the states they reach\<close>

datatype operation =
    AddKnowledge cell int
  | MarkSafe cell
  | MarkMine cell
  | MakeSafeMove
  | MakeRandomMove

definition step :: "picker \<Rightarrow> MinesweeperAI \<Rightarrow> operation \<Rightarrow> error + MinesweeperAI" where
  "step pick ai opn =
     (case opn of
        AddKnowledge c n \<Rightarrow> add_knowledge pick ai c n
      | MarkSafe c \<Rightarrow> Inr (mark_safe ai c)
      | MarkMine c \<Rightarrow> Inr (mark_mine ai c)
      | MakeSafeMove \<Rightarrow> Inr ai
      | MakeRandomMove \<Rightarrow> Inr ai)"

fun run :: "picker \<Rightarrow> MinesweeperAI \<Rightarrow> operation list \<Rightarrow> error + MinesweeperAI" where
  "run pick ai [] = Inr ai"
| "run pick ai (opn # ops) =
     (case step pick ai opn of Inl e \<Rightarrow> Inl e | Inr ai' \<Rightarrow> run pick ai' ops)"

inductive reachable :: "MinesweeperAI \<Rightarrow> bool" where
  fresh: "reachable (init h w)"
| after: "reachable ai \<Longrightarrow> step pick ai opn = Inr ai' \<Longrightarrow> reachable ai'"

subsection \<open>The board that answers the solver\<close>

text \<open>
  \<open>Minesweeper.nearby_mines\<close>: the number of mines within one row and column of a cell,
  the cell itself excluded, cells off the board ignored. The board is given by the set
  \<open>B\<close> of cells \<open>(i, j)\<close> with \<open>board[i][j]\<close> true.
\<close>

definition nearby_mines :: "int \<Rightarrow> int \<Rightarrow> cell set \<Rightarrow> cell \<Rightarrow> int" where
  "nearby_mines h w B c =
     int (length (filter (\<lambda>p. p \<noteq> c \<and> in_bounds h w p \<and> p \<in> B) (nearby c)))"

text \<open>
  An operation is truthful for a board when it tells the solver nothing false: a cell
  is marked safe only if it is no mine, marked as a mine only if it is one, and
  \<open>add_knowledge\<close> is called for a cell that is no mine with the count the board reports.
\<close>

definition truthful :: "int \<Rightarrow> int \<Rightarrow> cell set \<Rightarrow> operation \<Rightarrow> bool" where
  "truthful h w B opn =
     (case opn of
        AddKnowledge c n \<Rightarrow> c \<notin> B \<and> n = nearby_mines h w B c
      | MarkSafe c \<Rightarrow> c \<notin> B
      | MarkMine c \<Rightarrow> c \<in> B
      | MakeSafeMove \<Rightarrow> True
      | MakeRandomMove \<Rightarrow> True)"

inductive play :: "cell set \<Rightarrow> MinesweeperAI \<Rightarrow> bool" for B where
  start: "play B (init h w)"
| move: "play B ai \<Longrightarrow> truthful (height ai) (width ai) B opn \<Longrightarrow>
          step pick ai opn = Inr ai' \<Longrightarrow> play B ai'"

subsection \<open>Notions used in the statements and proofs\<close>

text \<open>A chooser for the examples: \<open>pop\<close> takes the first element in iteration order.\<close>

definition pick_first :: picker where
  "pick_first xs = 0"

text \<open>The number of \<open>add_knowledge\<close> calls in a sequence of operations.\<close>

fun adds :: "operation list \<Rightarrow> nat" where
  "adds [] = 0"
| "adds (AddKnowledge c n # ops) = Suc (adds ops)"
| "adds (opn # ops) = adds ops"

definition cells_at :: "MinesweeperAI \<Rightarrow> nat \<Rightarrow> cell list" where
  "cells_at ai k = cells (knowledge ai ! k)"

text \<open>The state after \<open>pop\<close> has taken \<open>x\<close> out of the sentence at index \<open>k\<close>.\<close>

definition discard :: "nat \<Rightarrow> cell \<Rightarrow> MinesweeperAI \<Rightarrow> MinesweeperAI" where
  "discard k x ai =
     ai\<lparr>knowledge := (knowledge ai)[k := (knowledge ai ! k)\<lparr>cells := removeAll x (cells_at ai k)\<rparr>]\<rparr>"

text \<open>Representation invariant: the lists that stand for Python sets have no duplicates.\<close>

definition wf :: "MinesweeperAI \<Rightarrow> bool" where
  "wf ai \<longleftrightarrow> distinct (moves_made ai) \<and> distinct (mines ai) \<and> distinct (safes ai) \<and>
     (\<forall>e \<in> set (knowledge ai). distinct (cells e))"

text \<open>No sentence mentions a cell known to be safe.\<close>

definition closed :: "MinesweeperAI \<Rightarrow> bool" where
  "closed ai \<longleftrightarrow> (\<forall>e \<in> set (knowledge ai). set (cells e) \<inter> set (safes ai) = {})"

text \<open>
  Agreement with a board \<open>B\<close>: a sentence that still has cells counts exactly the mines
  among them, known mines are mines, and safe cells and moves made are not.
\<close>

definition mines_in :: "cell set \<Rightarrow> cell list \<Rightarrow> int" where
  "mines_in B xs = int (length (filter (\<lambda>c. c \<in> B) xs))"

definition ok :: "cell set \<Rightarrow> Sentence \<Rightarrow> bool" where
  "ok B e \<longleftrightarrow> cells e = [] \<or> count e = mines_in B (cells e)"

definition facts_ok :: "cell set \<Rightarrow> MinesweeperAI \<Rightarrow> bool" where
  "facts_ok B ai \<longleftrightarrow>
     set (mines ai) \<subseteq> B \<and> set (safes ai) \<inter> B = {} \<and> set (moves_made ai) \<inter> B = {}"

definition sound :: "cell set \<Rightarrow> MinesweeperAI \<Rightarrow> bool" where
  "sound B ai \<longleftrightarrow> facts_ok B ai \<and> (\<forall>e \<in> set (knowledge ai). ok B e)"

text \<open>The same, with the sentence at index \<open>k\<close> (the one being drained) exempt.\<close>

definition sound_but :: "nat \<Rightarrow> cell set \<Rightarrow> MinesweeperAI \<Rightarrow> bool" where
  "sound_but k B ai \<longleftrightarrow>
     facts_ok B ai \<and> (\<forall>j < length (knowledge ai). j \<noteq> k \<longrightarrow> ok B (knowledge ai ! j))"

text \<open>What the loops of \<open>add_knowledge\<close> leave alone, or only let grow.\<close>

definition frame :: "MinesweeperAI \<Rightarrow> MinesweeperAI \<Rightarrow> bool" where
  "frame ai0 ai \<longleftrightarrow> height ai = height ai0 \<and> width ai = width ai0 \<and>
     moves_made ai = moves_made ai0 \<and> length (knowledge ai) = length (knowledge ai0) \<and>
     set (safes ai0) \<subseteq> set (safes ai) \<and> set (mines ai0) \<subseteq> set (mines ai)"

text \<open>The invariants every operation keeps, whatever its arguments.\<close>

definition steady :: "MinesweeperAI \<Rightarrow> MinesweeperAI \<Rightarrow> bool" where
  "steady ai0 ai \<longleftrightarrow> wf ai \<and> closed ai \<and> frame ai0 ai"

text \<open>The test a neighbour passes to enter the new sentence.\<close>

definition fresh_nb :: "MinesweeperAI \<Rightarrow> cell \<Rightarrow> cell \<Rightarrow> bool" where
  "fresh_nb ai c p \<longleftrightarrow> p \<noteq> c \<and> p \<notin> set (moves_made ai) \<and> p \<notin> set (safes ai) \<and>
     in_bounds (height ai) (width ai) p"

text \<open>
  An example state: the solver for a board of height 2 and width 4 after
  \<open>add_knowledge((0, 0), 3)\<close> and \<open>add_knowledge((0, 2), 3)\<close>, as a board with mines at
  \<open>(0, 1)\<close>, \<open>(1, 0)\<close>, \<open>(1, 1)\<close> and \<open>(1, 3)\<close> answers.
\<close>

definition example_state :: MinesweeperAI where
  "example_state =
     \<lparr>height = 2, width = 4, moves_made = [(0, 0), (0, 2)],
      mines = [(0, 1), (1, 0), (1, 1)], safes = [(0, 0), (0, 2)],
      knowledge =
        [\<lparr>cells = [], count = 3\<rparr>,
         \<lparr>cells = [(0, 1), (0, 3), (1, 1), (1, 2), (1, 3)], count = 3\<rparr>]\<rparr>"


definition strip_state :: MinesweeperAI where
  "strip_state =
     \<lparr>height = 1, width = 2, moves_made = [(0, 0)], mines = [(0, 1)], safes = [(0, 0)],
      knowledge = [\<lparr>cells = [], count = 1\<rparr>]\<rparr>"

section \<open>Python sets as lists, and the loop rules\<close>

lemma set_add_set [simp]: "set (set_add x xs) = insert x (set xs)"
  by (auto simp: set_add_def)

lemma set_add_distinct [simp]: "distinct (set_add x xs) = distinct xs"
  by (auto simp: set_add_def)

lemma set_pop_SomeD:
  "set_pop pick xs = Some (x, r) \<Longrightarrow> x \<in> set xs \<and> r = removeAll x xs"
  by (auto simp: set_pop_def Let_def split: if_splits)

lemma set_pop_None: "set_pop pick xs = None \<longleftrightarrow> xs = []"
  by (simp add: set_pop_def Let_def)

lemma pop_cell_SomeD:
  "pop_cell pick k ai = Some (x, ai') \<Longrightarrow> x \<in> set (cells_at ai k) \<and> ai' = discard k x ai"
  by (auto simp: pop_cell_def cells_at_def discard_def split: option.splits dest: set_pop_SomeD)

lemma pop_cell_None: "pop_cell pick k ai = None \<longleftrightarrow> cells_at ai k = []"
  by (cases "set_pop pick (cells (knowledge ai ! k))")
     (auto simp: pop_cell_def cells_at_def set_pop_def Let_def split: if_splits)

lemma drain_safe_rule:
  assumes nonempty: "\<And>n ai. I (Suc n) ai \<Longrightarrow> cells_at ai k \<noteq> []"
    and stp: "\<And>n ai x. I (Suc n) ai \<Longrightarrow> x \<in> set (cells_at ai k) \<Longrightarrow> I n (mark_safe (discard k x ai) x)"
    and start: "I n ai"
  shows "\<exists>ai'. drain_safe pick k n ai = Inr ai' \<and> I 0 ai'"
  using start
proof (induction n arbitrary: ai)
  case 0
  then show ?case by simp
next
  case (Suc n)
  from nonempty [OF Suc.prems] obtain x ai1 where p: "pop_cell pick k ai = Some (x, ai1)"
    by (cases "pop_cell pick k ai") (auto simp: pop_cell_None)
  from pop_cell_SomeD [OF p] have x: "x \<in> set (cells_at ai k)" and ai1: "ai1 = discard k x ai"
    by simp_all
  from stp [OF Suc.prems x] have "I n (mark_safe (discard k x ai) x)" .
  from Suc.IH [OF this] show ?case by (simp add: p ai1)
qed

lemma drain_mine_rule:
  assumes nonempty: "\<And>n ai. I (Suc n) ai \<Longrightarrow> cells_at ai k \<noteq> []"
    and stp: "\<And>n ai x. I (Suc n) ai \<Longrightarrow> x \<in> set (cells_at ai k) \<Longrightarrow> I n (mark_mine (discard k x ai) x)"
    and start: "I n ai"
  shows "\<exists>ai'. drain_mine pick k n ai = Inr ai' \<and> I 0 ai'"
  using start
proof (induction n arbitrary: ai)
  case 0
  then show ?case by simp
next
  case (Suc n)
  from nonempty [OF Suc.prems] obtain x ai1 where p: "pop_cell pick k ai = Some (x, ai1)"
    by (cases "pop_cell pick k ai") (auto simp: pop_cell_None)
  from pop_cell_SomeD [OF p] have x: "x \<in> set (cells_at ai k)" and ai1: "ai1 = discard k x ai"
    by simp_all
  from stp [OF Suc.prems x] have "I n (mark_mine (discard k x ai) x)" .
  from Suc.IH [OF this] show ?case by (simp add: p ai1)
qed

lemma drain_rest_rule:
  assumes nonempty: "\<And>n ai. I (Suc n) ai \<Longrightarrow> cells_at ai k \<noteq> []"
    and skip: "\<And>n ai x. I (Suc n) ai \<Longrightarrow> x \<in> set (cells_at ai k) \<Longrightarrow>
        x \<in> set (mines ai) \<or> x \<in> set (moves_made ai) \<Longrightarrow> I n (discard k x ai)"
    and stp: "\<And>n ai x. I (Suc n) ai \<Longrightarrow> x \<in> set (cells_at ai k) \<Longrightarrow>
        \<not> (x \<in> set (mines ai) \<or> x \<in> set (moves_made ai)) \<Longrightarrow> I n (mark_safe (discard k x ai) x)"
    and start: "I n ai"
  shows "\<exists>ai'. drain_rest pick k n ai = Inr ai' \<and> I 0 ai'"
  using start
proof (induction n arbitrary: ai)
  case 0
  then show ?case by simp
next
  case (Suc n)
  from nonempty [OF Suc.prems] obtain x ai1 where p: "pop_cell pick k ai = Some (x, ai1)"
    by (cases "pop_cell pick k ai") (auto simp: pop_cell_None)
  from pop_cell_SomeD [OF p] have x: "x \<in> set (cells_at ai k)" and ai1: "ai1 = discard k x ai"
    by simp_all
  have fr: "mines (discard k x ai) = mines ai" "moves_made (discard k x ai) = moves_made ai"
    by (simp_all add: discard_def)
  show ?case
  proof (cases "x \<in> set (mines ai) \<or> x \<in> set (moves_made ai)")
    case True
    from skip [OF Suc.prems x True] have "I n (discard k x ai)" .
    from Suc.IH [OF this] show ?thesis using True by (simp add: p ai1 fr)
  next
    case False
    from stp [OF Suc.prems x False] have "I n (mark_safe (discard k x ai) x)" .
    from Suc.IH [OF this] show ?thesis using False by (simp add: p ai1 fr)
  qed
qed

lemma for_each_rule:
  assumes body: "\<And>k ai. k \<in> set ks \<Longrightarrow> I ai \<Longrightarrow> \<exists>ai'. body k ai = Inr ai' \<and> I ai'"
    and start: "I ai"
  shows "\<exists>ai'. for_each body ks ai = Inr ai' \<and> I ai'"
  using body start
proof (induction ks arbitrary: ai)
  case Nil
  then show ?case by simp
next
  case (Cons k ks)
  from Cons.prems(1) [of k ai] Cons.prems(2) obtain ai1 where b: "body k ai = Inr ai1" and i: "I ai1"
    by auto
  have "\<exists>ai'. for_each body ks ai1 = Inr ai' \<and> I ai'"
    by (rule Cons.IH) (use Cons.prems(1) i in auto)
  then show ?case by (simp add: b)
qed


subsection \<open>The primitive updates\<close>

lemma Sentence_mark_safe_simps [simp]:
  "cells (Sentence_mark_safe s c) = removeAll c (cells s)"
  "count (Sentence_mark_safe s c) = count s"
  by (simp_all add: Sentence_mark_safe_def)

lemma Sentence_mark_mine_simps [simp]:
  "cells (Sentence_mark_mine s c) = removeAll c (cells s)"
  "count (Sentence_mark_mine s c) = (if c \<in> set (cells s) then count s - 1 else count s)"
  by (simp_all add: Sentence_mark_mine_def)

lemma mark_safe_simps [simp]:
  "height (mark_safe ai c) = height ai"
  "width (mark_safe ai c) = width ai"
  "moves_made (mark_safe ai c) = moves_made ai"
  "mines (mark_safe ai c) = mines ai"
  "safes (mark_safe ai c) = set_add c (safes ai)"
  "knowledge (mark_safe ai c) = map (\<lambda>s. Sentence_mark_safe s c) (knowledge ai)"
  by (simp_all add: mark_safe_def)

lemma mark_mine_simps [simp]:
  "height (mark_mine ai c) = height ai"
  "width (mark_mine ai c) = width ai"
  "moves_made (mark_mine ai c) = moves_made ai"
  "mines (mark_mine ai c) = set_add c (mines ai)"
  "safes (mark_mine ai c) = safes ai"
  "knowledge (mark_mine ai c) = map (\<lambda>s. Sentence_mark_mine s c) (knowledge ai)"
  by (simp_all add: mark_mine_def)

lemma discard_simps [simp]:
  "height (discard k x ai) = height ai"
  "width (discard k x ai) = width ai"
  "moves_made (discard k x ai) = moves_made ai"
  "mines (discard k x ai) = mines ai"
  "safes (discard k x ai) = safes ai"
  "length (knowledge (discard k x ai)) = length (knowledge ai)"
  by (simp_all add: discard_def)

lemma cells_at_discard:
  "k < length (knowledge ai) \<Longrightarrow>
   cells_at (discard k x ai) j = (if j = k then removeAll x (cells_at ai k) else cells_at ai j)"
  by (simp add: discard_def cells_at_def nth_list_update)

lemma count_discard:
  "count (knowledge (discard k x ai) ! j) = count (knowledge ai ! j)"
  by (cases "k < length (knowledge ai)") (simp_all add: discard_def nth_list_update list_update_beyond)

lemma in_set_discard:
  assumes "e \<in> set (knowledge (discard k x ai))"
  shows "e \<in> set (knowledge ai) \<or>
     (k < length (knowledge ai) \<and> e = (knowledge ai ! k)\<lparr>cells := removeAll x (cells_at ai k)\<rparr>)"
proof (cases "k < length (knowledge ai)")
  case True
  with assms set_update_subset_insert [of "knowledge ai" k] show ?thesis
    by (auto simp: discard_def)
next
  case False
  with assms show ?thesis by (simp add: discard_def list_update_beyond)
qed

lemma cells_at_mark_safe:
  "j < length (knowledge ai) \<Longrightarrow> cells_at (mark_safe ai x) j = removeAll x (cells_at ai j)"
  by (simp add: cells_at_def)

lemma cells_at_mark_mine:
  "j < length (knowledge ai) \<Longrightarrow> cells_at (mark_mine ai x) j = removeAll x (cells_at ai j)"
  by (simp add: cells_at_def)

lemma length_removeAll_distinct:
  "distinct xs \<Longrightarrow> x \<in> set xs \<Longrightarrow> length (removeAll x xs) = length xs - 1"
  by (simp add: distinct_remove1_removeAll [symmetric] length_remove1)

lemma wf_cells_at: "wf ai \<Longrightarrow> k < length (knowledge ai) \<Longrightarrow> distinct (cells_at ai k)"
  by (simp add: wf_def cells_at_def)

lemma wf_discard: "wf ai \<Longrightarrow> wf (discard k x ai)"
  unfolding wf_def
  by (auto dest!: in_set_discard simp: distinct_removeAll cells_at_def)

lemma wf_mark_safe: "wf ai \<Longrightarrow> wf (mark_safe ai x)"
  by (auto simp: wf_def distinct_removeAll)

lemma wf_mark_mine: "wf ai \<Longrightarrow> wf (mark_mine ai x)"
  by (auto simp: wf_def distinct_removeAll)

lemma closed_discard: "closed ai \<Longrightarrow> closed (discard k x ai)"
  unfolding closed_def
  by (fastforce dest!: in_set_discard simp: cells_at_def)

lemma closed_mark_safe: "closed ai \<Longrightarrow> closed (mark_safe ai x)"
  by (auto simp: closed_def)

lemma closed_mark_mine: "closed ai \<Longrightarrow> closed (mark_mine ai x)"
  by (auto simp: closed_def)

lemma frame_refl: "frame ai ai"
  by (simp add: frame_def)

lemma frame_discard: "frame ai0 ai \<Longrightarrow> frame ai0 (discard k x ai)"
  by (simp add: frame_def)

lemma frame_mark_safe: "frame ai0 ai \<Longrightarrow> frame ai0 (mark_safe ai x)"
  by (auto simp: frame_def)

lemma frame_mark_mine: "frame ai0 ai \<Longrightarrow> frame ai0 (mark_mine ai x)"
  by (auto simp: frame_def)

lemma steady_discard: "steady ai0 ai \<Longrightarrow> steady ai0 (discard k x ai)"
  by (simp add: steady_def wf_discard closed_discard frame_discard)

lemma steady_mark_safe: "steady ai0 ai \<Longrightarrow> steady ai0 (mark_safe ai x)"
  by (simp add: steady_def wf_mark_safe closed_mark_safe frame_mark_safe)

lemma steady_mark_mine: "steady ai0 ai \<Longrightarrow> steady ai0 (mark_mine ai x)"
  by (simp add: steady_def wf_mark_mine closed_mark_mine frame_mark_mine)

text \<open>One pop, followed or not by a mark, shortens the drained sentence by one cell.\<close>

lemma length_after_discard:
  assumes "wf ai" "k < length (knowledge ai)" "x \<in> set (cells_at ai k)"
    "length (cells_at ai k) = Suc n"
  shows "length (cells_at (discard k x ai) k) = n"
    and "length (cells_at (mark_safe (discard k x ai) x) k) = n"
    and "length (cells_at (mark_mine (discard k x ai) x) k) = n"
  using assms wf_cells_at [OF assms(1,2)]
  by (simp_all add: cells_at_discard cells_at_mark_safe cells_at_mark_mine length_removeAll_distinct)


subsection \<open>The loops never fail and keep the invariants\<close>

lemma steady_length: "steady ai0 ai \<Longrightarrow> length (knowledge ai) = length (knowledge ai0)"
  by (simp add: steady_def frame_def)

lemma steady_wf: "steady ai0 ai \<Longrightarrow> wf ai"
  by (simp add: steady_def)

lemma drain_safe_inv:
  assumes "steady ai0 ai" "k < length (knowledge ai0)" "J ai"
    and J: "\<And>a x. steady ai0 a \<Longrightarrow> J a \<Longrightarrow> x \<in> set (cells_at a k) \<Longrightarrow>
               J (mark_safe (discard k x a) x)"
  shows "\<exists>ai'. drain_safe pick k (length (cells_at ai k)) ai = Inr ai' \<and> steady ai0 ai' \<and>
           J ai' \<and> cells_at ai' k = []"
proof -
  let ?I = "\<lambda>n a. steady ai0 a \<and> J a \<and> length (cells_at a k) = n"
  have "\<exists>ai'. drain_safe pick k (length (cells_at ai k)) ai = Inr ai' \<and> ?I 0 ai'"
  proof (rule drain_safe_rule [where I = ?I])
    fix n a assume "?I (Suc n) a"
    then show "cells_at a k \<noteq> []" by auto
  next
    fix n a x assume i: "?I (Suc n) a" and x: "x \<in> set (cells_at a k)"
    from i assms(2) steady_length [of ai0 a] have k: "k < length (knowledge a)" by auto
    from i have len: "length (cells_at a k) = Suc n" and st: "steady ai0 a" and j: "J a"
      by simp_all
    from length_after_discard(2) [OF steady_wf [OF st] k x len]
      steady_mark_safe [OF steady_discard [OF st]] J [OF st j x]
    show "?I n (mark_safe (discard k x a) x)" by simp
  next
    show "?I (length (cells_at ai k)) ai" using assms by simp
  qed
  then show ?thesis by auto
qed

lemma drain_mine_inv:
  assumes "steady ai0 ai" "k < length (knowledge ai0)" "J ai"
    and J: "\<And>a x. steady ai0 a \<Longrightarrow> J a \<Longrightarrow> x \<in> set (cells_at a k) \<Longrightarrow>
               J (mark_mine (discard k x a) x)"
  shows "\<exists>ai'. drain_mine pick k (length (cells_at ai k)) ai = Inr ai' \<and> steady ai0 ai' \<and>
           J ai' \<and> cells_at ai' k = []"
proof -
  let ?I = "\<lambda>n a. steady ai0 a \<and> J a \<and> length (cells_at a k) = n"
  have "\<exists>ai'. drain_mine pick k (length (cells_at ai k)) ai = Inr ai' \<and> ?I 0 ai'"
  proof (rule drain_mine_rule [where I = ?I])
    fix n a assume "?I (Suc n) a"
    then show "cells_at a k \<noteq> []" by auto
  next
    fix n a x assume i: "?I (Suc n) a" and x: "x \<in> set (cells_at a k)"
    from i assms(2) steady_length [of ai0 a] have k: "k < length (knowledge a)" by auto
    from i have len: "length (cells_at a k) = Suc n" and st: "steady ai0 a" and j: "J a"
      by simp_all
    from length_after_discard(3) [OF steady_wf [OF st] k x len]
      steady_mark_mine [OF steady_discard [OF st]] J [OF st j x]
    show "?I n (mark_mine (discard k x a) x)" by simp
  next
    show "?I (length (cells_at ai k)) ai" using assms by simp
  qed
  then show ?thesis by auto
qed

lemma drain_rest_inv:
  assumes "steady ai0 ai" "k < length (knowledge ai0)" "J ai"
    and J1: "\<And>a x. steady ai0 a \<Longrightarrow> J a \<Longrightarrow> x \<in> set (cells_at a k) \<Longrightarrow>
               x \<in> set (mines a) \<or> x \<in> set (moves_made a) \<Longrightarrow> J (discard k x a)"
    and J2: "\<And>a x. steady ai0 a \<Longrightarrow> J a \<Longrightarrow> x \<in> set (cells_at a k) \<Longrightarrow>
               \<not> (x \<in> set (mines a) \<or> x \<in> set (moves_made a)) \<Longrightarrow>
               J (mark_safe (discard k x a) x)"
  shows "\<exists>ai'. drain_rest pick k (length (cells_at ai k)) ai = Inr ai' \<and> steady ai0 ai' \<and>
           J ai' \<and> cells_at ai' k = []"
proof -
  let ?I = "\<lambda>n a. steady ai0 a \<and> J a \<and> length (cells_at a k) = n"
  have "\<exists>ai'. drain_rest pick k (length (cells_at ai k)) ai = Inr ai' \<and> ?I 0 ai'"
  proof (rule drain_rest_rule [where I = ?I])
    fix n a assume "?I (Suc n) a"
    then show "cells_at a k \<noteq> []" by auto
  next
    fix n a x assume i: "?I (Suc n) a" and x: "x \<in> set (cells_at a k)"
      and m: "x \<in> set (mines a) \<or> x \<in> set (moves_made a)"
    from i assms(2) steady_length [of ai0 a] have k: "k < length (knowledge a)" by auto
    from i have len: "length (cells_at a k) = Suc n" and st: "steady ai0 a" and j: "J a"
      by simp_all
    from length_after_discard(1) [OF steady_wf [OF st] k x len]
      steady_discard [OF st] J1 [OF st j x m]
    show "?I n (discard k x a)" by simp
  next
    fix n a x assume i: "?I (Suc n) a" and x: "x \<in> set (cells_at a k)"
      and m: "\<not> (x \<in> set (mines a) \<or> x \<in> set (moves_made a))"
    from i assms(2) steady_length [of ai0 a] have k: "k < length (knowledge a)" by auto
    from i have len: "length (cells_at a k) = Suc n" and st: "steady ai0 a" and j: "J a"
      by simp_all
    from length_after_discard(2) [OF steady_wf [OF st] k x len]
      steady_mark_safe [OF steady_discard [OF st]] J2 [OF st j x m]
    show "?I n (mark_safe (discard k x a) x)" by simp
  next
    show "?I (length (cells_at ai k)) ai" using assms by simp
  qed
  then show ?thesis by auto
qed

lemma resolve_one_steady:
  assumes "steady ai0 ai" "k < length (knowledge ai0)"
  shows "\<exists>ai'. resolve_one pick k ai = Inr ai' \<and> steady ai0 ai'"
  using drain_safe_inv [OF assms, of "\<lambda>a. True" pick] drain_mine_inv [OF assms, of "\<lambda>a. True" pick]
    assms(1)
  by (auto simp: resolve_one_def Let_def get_set_length_def cells_at_def)

lemma sweep_one_steady:
  assumes "steady ai0 ai" "k < length (knowledge ai0)"
  shows "\<exists>ai'. sweep_one pick k ai = Inr ai' \<and> steady ai0 ai'"
  using drain_rest_inv [OF assms, of "\<lambda>a. True" pick] assms(1)
  by (auto simp: sweep_one_def Let_def get_set_length_def cells_at_def)

lemma passes_steady:
  assumes "steady ai0 ai"
  shows "\<exists>ai'. for_each (resolve_one pick) [0 ..< length (knowledge ai0)] ai = Inr ai' \<and>
            steady ai0 ai'"
    and "\<exists>ai'. for_each (sweep_one pick) [0 ..< length (knowledge ai0)] ai = Inr ai' \<and>
            steady ai0 ai'"
  by (rule for_each_rule [where I = "steady ai0"]; simp add: assms resolve_one_steady sweep_one_steady)+

subsection \<open>The new sentence\<close>

lemma fold_mango_step:
  "distinct (acc @ ps) \<Longrightarrow> fold (mango_step ai c) ps acc = acc @ filter (fresh_nb ai c) ps"
proof (induction ps arbitrary: acc)
  case Nil
  then show ?case by simp
next
  case (Cons p ps)
  have "distinct (mango_step ai c p acc @ ps)"
    using Cons.prems by (auto simp: mango_step_def set_add_def)
  from Cons.IH [OF this] Cons.prems show ?case
    by (auto simp: mango_step_def set_add_def fresh_nb_def)
qed

lemma distinct_nearby: "distinct (nearby c)"
  unfolding nearby_def by (rule distinct_product) simp_all

lemma mangoes_filter: "mangoes ai c = filter (fresh_nb ai c) (nearby c)"
  using fold_mango_step [of "[]" "nearby c" ai c] by (simp add: mangoes_def distinct_nearby)

lemma distinct_mangoes: "distinct (mangoes ai c)"
  by (simp add: mangoes_filter distinct_nearby)

lemma add_knowledge_steady:
  assumes "wf ai" "closed ai"
  shows "\<exists>ai'. add_knowledge pick ai c n = Inr ai' \<and> wf ai' \<and> closed ai' \<and>
           height ai' = height ai \<and> width ai' = width ai \<and>
           moves_made ai' = set_add c (moves_made ai) \<and>
           insert c (set (safes ai)) \<subseteq> set (safes ai') \<and> set (mines ai) \<subseteq> set (mines ai') \<and>
           length (knowledge ai') = Suc (length (knowledge ai))"
proof -
  define ai3 where "ai3 = (mark_safe (ai\<lparr>moves_made := set_add c (moves_made ai)\<rparr>) c)
     \<lparr>knowledge := knowledge (mark_safe (ai\<lparr>moves_made := set_add c (moves_made ai)\<rparr>) c) @
        [\<lparr>cells = mangoes ai c, count = n\<rparr>]\<rparr>"
  have wf3: "wf ai3" using assms(1)
    by (auto simp: ai3_def wf_def distinct_removeAll distinct_mangoes)
  have cl3: "closed ai3" using assms(2)
    by (auto simp: ai3_def closed_def mangoes_filter fresh_nb_def)
  have st: "steady ai3 ai3" by (simp add: steady_def wf3 cl3 frame_refl)
  from passes_steady(1) [OF st, of pick] obtain ai4
    where r: "for_each (resolve_one pick) [0 ..< length (knowledge ai3)] ai3 = Inr ai4"
      and st4: "steady ai3 ai4" by auto
  from passes_steady(2) [OF st4, of pick] obtain ai5
    where s: "for_each (sweep_one pick) [0 ..< length (knowledge ai3)] ai4 = Inr ai5"
      and st5: "steady ai3 ai5" by auto
  have l4: "length (knowledge ai4) = length (knowledge ai3)" using st4 by (rule steady_length)
  have "add_knowledge pick ai c n =
      (case for_each (resolve_one pick) [0 ..< length (knowledge ai3)] ai3 of
         Inl e \<Rightarrow> Inl e
       | Inr ai4 \<Rightarrow> for_each (sweep_one pick) [0 ..< length (knowledge ai4)] ai4)"
    unfolding add_knowledge_def Let_def ai3_def ..
  with r s l4 have "add_knowledge pick ai c n = Inr ai5" by simp
  moreover have "height ai3 = height ai" "width ai3 = width ai"
    "moves_made ai3 = set_add c (moves_made ai)" "set (safes ai3) = insert c (set (safes ai))"
    "mines ai3 = mines ai" "length (knowledge ai3) = Suc (length (knowledge ai))"
    by (simp_all add: ai3_def)
  ultimately show ?thesis using st5 by (auto simp: steady_def frame_def)
qed


subsection \<open>Reachable states\<close>

lemma wf_closed_init: "wf (init h w)" "closed (init h w)"
  by (simp_all add: wf_def closed_def init_def)

lemma step_wf_closed:
  assumes "wf ai" "closed ai" "step pick ai opn = Inr ai'"
  shows "wf ai' \<and> closed ai'"
proof (cases opn)
  case (AddKnowledge c n)
  with assms(3) add_knowledge_steady [OF assms(1,2), of pick c n] show ?thesis
    by (auto simp: step_def)
qed (use assms in \<open>auto simp: step_def wf_mark_safe wf_mark_mine closed_mark_safe closed_mark_mine\<close>)

lemma reachable_wf_closed: "reachable ai \<Longrightarrow> wf ai \<and> closed ai"
  by (induction rule: reachable.induct) (auto simp: wf_closed_init dest: step_wf_closed)

lemma run_reachable: "reachable ai \<Longrightarrow> run pick ai ops = Inr ai' \<Longrightarrow> reachable ai'"
proof (induction ops arbitrary: ai)
  case Nil
  then show ?case by simp
next
  case (Cons opn ops)
  then show ?case
    by (cases "step pick ai opn") (auto intro: reachable.after)
qed

lemma step_total:
  assumes "wf ai" "closed ai"
  shows "\<exists>ai'. step pick ai opn = Inr ai' \<and>
           length (knowledge ai') = length (knowledge ai) + adds [opn]"
proof (cases opn)
  case (AddKnowledge c n)
  with add_knowledge_steady [OF assms, of pick c n] show ?thesis
    by (auto simp: step_def)
qed (simp_all add: step_def)

lemma run_total:
  assumes "wf ai" "closed ai"
  shows "\<exists>ai'. run pick ai ops = Inr ai' \<and>
           length (knowledge ai') = length (knowledge ai) + adds ops"
  using assms
proof (induction ops arbitrary: ai)
  case Nil
  then show ?case by simp
next
  case (Cons opn ops)
  from step_total [OF Cons.prems, of pick opn] obtain ai1
    where s: "step pick ai opn = Inr ai1"
      and l: "length (knowledge ai1) = length (knowledge ai) + adds [opn]" by auto
  from step_wf_closed [OF Cons.prems s] have "wf ai1" "closed ai1" by simp_all
  from Cons.IH [OF this] obtain ai2 where "run pick ai1 ops = Inr ai2"
    and "length (knowledge ai2) = length (knowledge ai1) + adds ops" by auto
  with s l show ?case by (cases opn) simp_all
qed

subsection \<open>Agreement with the board\<close>

lemma mines_in_Nil [simp]: "mines_in B [] = 0"
  by (simp add: mines_in_def)

lemma mines_in_removeAll_out: "x \<notin> B \<Longrightarrow> mines_in B (removeAll x xs) = mines_in B xs"
  by (induction xs) (auto simp: mines_in_def)

lemma mines_in_removeAll_in:
  assumes "distinct xs" "x \<in> set xs" "x \<in> B"
  shows "mines_in B (removeAll x xs) = mines_in B xs - 1"
proof -
  have "filter (\<lambda>c. c \<in> B) (removeAll x xs) = removeAll x (filter (\<lambda>c. c \<in> B) xs)"
    by (induction xs) auto
  moreover have "length (removeAll x (filter (\<lambda>c. c \<in> B) xs)) = length (filter (\<lambda>c. c \<in> B) xs) - 1"
    using assms by (intro length_removeAll_distinct) auto
  moreover have "1 \<le> length (filter (\<lambda>c. c \<in> B) xs)"
    using assms by (cases "filter (\<lambda>c. c \<in> B) xs") (auto simp: filter_empty_conv)
  ultimately show ?thesis by (simp only: mines_in_def of_nat_diff of_nat_1)
qed

lemma mines_in_zero: "mines_in B xs = 0 \<longleftrightarrow> set xs \<inter> B = {}"
  by (auto simp: mines_in_def filter_empty_conv)

lemma mines_in_all: "mines_in B xs = int (length xs) \<longleftrightarrow> set xs \<subseteq> B"
proof -
  have "length (filter (\<lambda>c. c \<in> B) xs) = length xs \<longleftrightarrow>
        length (filter (\<lambda>c. c \<notin> B) xs) = 0"
    using sum_length_filter_compl [of "\<lambda>c. c \<in> B" xs] by arith
  also have "\<dots> \<longleftrightarrow> set xs \<subseteq> B"
    by (auto simp: filter_empty_conv)
  finally show ?thesis by (simp add: mines_in_def)
qed

lemma known_mines_cover:
  assumes "set ms \<subseteq> B" "mines_in B xs = int (length (filter (\<lambda>c. c \<in> set ms) xs))"
  shows "set xs \<inter> B \<subseteq> set ms"
proof -
  let ?ys = "filter (\<lambda>c. c \<in> B) xs"
  have "filter (\<lambda>c. c \<in> set ms) ?ys = filter (\<lambda>c. c \<in> set ms) xs"
    unfolding filter_filter using assms(1) by (intro filter_cong) auto
  then have "length (filter (\<lambda>c. c \<in> set ms) ?ys) = length ?ys"
    using assms(2) by (simp only: mines_in_def of_nat_eq_iff)
  with sum_length_filter_compl [of "\<lambda>c. c \<in> set ms" ?ys]
  have "length (filter (\<lambda>c. c \<notin> set ms) ?ys) = 0" by arith
  then have "filter (\<lambda>c. c \<notin> set ms) ?ys = []" by (simp only: length_0_conv)
  then have "\<forall>x \<in> set ?ys. \<not> x \<notin> set ms" by (simp only: filter_empty_conv)
  then show ?thesis by auto
qed

lemma ok_mark_safe: "ok B e \<Longrightarrow> x \<notin> B \<Longrightarrow> ok B (Sentence_mark_safe e x)"
  unfolding ok_def by (cases "cells e = []") (simp_all add: mines_in_removeAll_out)

lemma ok_mark_mine:
  assumes "ok B e" "distinct (cells e)" "x \<in> B"
  shows "ok B (Sentence_mark_mine e x)"
proof (cases "x \<in> set (cells e)")
  case True
  then have "cells e \<noteq> []" by auto
  with assms(1) have "count e = mines_in B (cells e)" by (simp add: ok_def)
  with True mines_in_removeAll_in [OF assms(2) True assms(3)] show ?thesis
    by (simp add: ok_def)
next
  case False
  with assms(1) show ?thesis by (simp add: ok_def)
qed

lemma sound_butI: "sound B ai \<Longrightarrow> sound_but k B ai"
  by (simp add: sound_def sound_but_def)

lemma sound_but_emptyD:
  assumes "sound_but k B ai" "cells_at ai k = []"
  shows "sound B ai"
proof -
  have "ok B e" if "e \<in> set (knowledge ai)" for e
  proof -
    from that obtain j where j: "j < length (knowledge ai)" "e = knowledge ai ! j"
      by (auto simp: in_set_conv_nth)
    show ?thesis
    proof (cases "j = k")
      case True
      with j assms(2) show ?thesis by (simp add: ok_def cells_at_def)
    next
      case False
      with j assms(1) show ?thesis by (simp add: sound_but_def)
    qed
  qed
  with assms(1) show ?thesis by (simp add: sound_def sound_but_def)
qed

lemma sound_but_discard: "sound_but k B ai \<Longrightarrow> sound_but k B (discard k x ai)"
  by (simp add: sound_but_def facts_ok_def discard_def)

lemma sound_but_mark_safe: "sound_but k B ai \<Longrightarrow> x \<notin> B \<Longrightarrow> sound_but k B (mark_safe ai x)"
  unfolding sound_but_def facts_ok_def by (simp add: ok_mark_safe)

lemma sound_but_mark_mine:
  "sound_but k B ai \<Longrightarrow> wf ai \<Longrightarrow> x \<in> B \<Longrightarrow> sound_but k B (mark_mine ai x)"
  by (auto simp: sound_but_def facts_ok_def wf_def intro!: ok_mark_mine)

lemma sound_mark_safe: "sound B ai \<Longrightarrow> x \<notin> B \<Longrightarrow> sound B (mark_safe ai x)"
  unfolding sound_def facts_ok_def by (simp add: ok_mark_safe)

lemma sound_mark_mine: "sound B ai \<Longrightarrow> wf ai \<Longrightarrow> x \<in> B \<Longrightarrow> sound B (mark_mine ai x)"
  by (auto simp: sound_def facts_ok_def wf_def intro!: ok_mark_mine)

lemma cells_at_shrink:
  assumes "k < length (knowledge a)"
  shows "set (cells_at (discard k x a) k) \<subseteq> set (cells_at a k)"
    and "set (cells_at (mark_safe (discard k x a) x) k) \<subseteq> set (cells_at a k)"
    and "set (cells_at (mark_mine (discard k x a) x) k) \<subseteq> set (cells_at a k)"
  using assms by (auto simp: cells_at_discard cells_at_mark_safe cells_at_mark_mine)

lemma resolve_one_sound:
  assumes st: "steady ai0 ai" and k: "k < length (knowledge ai0)" and so: "sound B ai"
  shows "\<exists>ai'. resolve_one pick k ai = Inr ai' \<and> steady ai0 ai' \<and> sound B ai'"
proof -
  let ?e = "knowledge ai ! k"
  from st k have kk: "k < length (knowledge ai)" by (simp add: steady_length)
  with so have ok: "ok B ?e" by (simp add: sound_def)
  consider (safe) "count ?e = 0" | (mine) "count ?e \<noteq> 0" "count ?e = int (length (cells ?e))"
    | (none) "count ?e \<noteq> 0" "count ?e \<noteq> int (length (cells ?e))" by blast
  then show ?thesis
  proof cases
    case safe
    let ?J = "\<lambda>a. sound_but k B a \<and> set (cells_at a k) \<inter> B = {}"
    from ok safe have "set (cells_at ai k) \<inter> B = {}"
      by (auto simp: ok_def cells_at_def mines_in_zero [symmetric])
    with so have j: "?J ai" by (simp add: sound_butI)
    have "\<exists>ai'. drain_safe pick k (length (cells_at ai k)) ai = Inr ai' \<and> steady ai0 ai' \<and>
           ?J ai' \<and> cells_at ai' k = []"
    proof (rule drain_safe_inv [where J = ?J, OF st k j])
      fix a x assume a: "steady ai0 a" "?J a" "x \<in> set (cells_at a k)"
      from a(1) k have "k < length (knowledge a)" by (simp add: steady_length)
      from cells_at_shrink(2) [OF this, of x] a(2,3)
      show "?J (mark_safe (discard k x a) x)"
        by (auto intro!: sound_but_mark_safe sound_but_discard)
    qed
    with safe show ?thesis
      by (auto simp: resolve_one_def Let_def get_set_length_def cells_at_def dest: sound_but_emptyD)
  next
    case mine
    let ?J = "\<lambda>a. sound_but k B a \<and> set (cells_at a k) \<subseteq> B"
    from ok mine have "set (cells_at ai k) \<subseteq> B"
      by (auto simp: ok_def cells_at_def mines_in_all [symmetric])
    with so have j: "?J ai" by (simp add: sound_butI)
    have "\<exists>ai'. drain_mine pick k (length (cells_at ai k)) ai = Inr ai' \<and> steady ai0 ai' \<and>
           ?J ai' \<and> cells_at ai' k = []"
    proof (rule drain_mine_inv [where J = ?J, OF st k j])
      fix a x assume a: "steady ai0 a" "?J a" "x \<in> set (cells_at a k)"
      from a(1) k have "k < length (knowledge a)" by (simp add: steady_length)
      from cells_at_shrink(3) [OF this, of x] a(2,3) wf_discard [OF steady_wf [OF a(1)], of k x]
      show "?J (mark_mine (discard k x a) x)"
        by (auto intro!: sound_but_mark_mine sound_but_discard)
    qed
    with mine show ?thesis
      by (auto simp: resolve_one_def Let_def get_set_length_def cells_at_def dest: sound_but_emptyD)
  next
    case none
    with st so show ?thesis
      by (simp add: resolve_one_def Let_def get_set_length_def)
  qed
qed

lemma sweep_one_sound:
  assumes st: "steady ai0 ai" and k: "k < length (knowledge ai0)" and so: "sound B ai"
  shows "\<exists>ai'. sweep_one pick k ai = Inr ai' \<and> steady ai0 ai' \<and> sound B ai'"
proof -
  let ?e = "knowledge ai ! k"
  from st k have kk: "k < length (knowledge ai)" by (simp add: steady_length)
  with so have ok: "ok B ?e" by (simp add: sound_def)
  show ?thesis
  proof (cases "cells ?e \<noteq> [] \<and>
      count ?e = int (length (filter (\<lambda>c. c \<in> set (mines ai)) (cells ?e)))")
    case True
    let ?J = "\<lambda>a. sound_but k B a \<and> set (cells_at a k) \<inter> B \<subseteq> set (mines a)"
    from so have "set (mines ai) \<subseteq> B" by (simp add: sound_def facts_ok_def)
    from known_mines_cover [OF this, of "cells ?e"] ok True
    have "set (cells_at ai k) \<inter> B \<subseteq> set (mines ai)" by (simp add: ok_def cells_at_def)
    with so have j: "?J ai" by (simp add: sound_butI)
    have "\<exists>ai'. drain_rest pick k (length (cells_at ai k)) ai = Inr ai' \<and> steady ai0 ai' \<and>
           ?J ai' \<and> cells_at ai' k = []"
    proof (rule drain_rest_inv [where J = ?J, OF st k j])
      fix a x assume a: "steady ai0 a" "?J a" "x \<in> set (cells_at a k)"
      from a(1) k have "k < length (knowledge a)" by (simp add: steady_length)
      from cells_at_shrink(1) [OF this, of x] a(2)
      show "?J (discard k x a)"
        by (auto intro!: sound_but_discard)
    next
      fix a x assume a: "steady ai0 a" "?J a" "x \<in> set (cells_at a k)"
        and m: "\<not> (x \<in> set (mines a) \<or> x \<in> set (moves_made a))"
      from a(1) k have "k < length (knowledge a)" by (simp add: steady_length)
      from a(2,3) m have "x \<notin> B" by auto
      with cells_at_shrink(2) [OF \<open>k < length (knowledge a)\<close>, of x] a(2)
      show "?J (mark_safe (discard k x a) x)"
        by (auto intro!: sound_but_mark_safe sound_but_discard)
    qed
    with True show ?thesis
      by (auto simp: sweep_one_def Let_def get_set_length_def cells_at_def dest: sound_but_emptyD)
  next
    case False
    with st so show ?thesis
      by (auto simp: sweep_one_def Let_def get_set_length_def)
  qed
qed

lemma passes_sound:
  assumes "steady ai0 ai" "sound B ai"
  shows "\<exists>ai'. for_each (resolve_one pick) [0 ..< length (knowledge ai0)] ai = Inr ai' \<and>
            steady ai0 ai' \<and> sound B ai'"
    and "\<exists>ai'. for_each (sweep_one pick) [0 ..< length (knowledge ai0)] ai = Inr ai' \<and>
            steady ai0 ai' \<and> sound B ai'"
proof -
  show "\<exists>ai'. for_each (resolve_one pick) [0 ..< length (knowledge ai0)] ai = Inr ai' \<and>
            steady ai0 ai' \<and> sound B ai'"
    by (rule for_each_rule [where I = "\<lambda>a. steady ai0 a \<and> sound B a"])
       (use assms in \<open>auto intro: resolve_one_sound\<close>)
  show "\<exists>ai'. for_each (sweep_one pick) [0 ..< length (knowledge ai0)] ai = Inr ai' \<and>
            steady ai0 ai' \<and> sound B ai'"
    by (rule for_each_rule [where I = "\<lambda>a. steady ai0 a \<and> sound B a"])
       (use assms in \<open>auto intro: sweep_one_sound\<close>)
qed

lemma mangoes_count:
  assumes "facts_ok B ai"
  shows "mines_in B (mangoes ai c) = nearby_mines (height ai) (width ai) B c"
proof -
  have "filter (\<lambda>p. p \<in> B) (filter (fresh_nb ai c) (nearby c)) =
        filter (\<lambda>p. p \<noteq> c \<and> in_bounds (height ai) (width ai) p \<and> p \<in> B) (nearby c)"
    using assms unfolding filter_filter
    by (intro filter_cong) (auto simp: fresh_nb_def facts_ok_def)
  then show ?thesis by (simp add: mines_in_def nearby_mines_def mangoes_filter)
qed

lemma add_knowledge_sound:
  assumes "wf ai" "closed ai" "sound B ai" "c \<notin> B" "n = nearby_mines (height ai) (width ai) B c"
  shows "\<exists>ai'. add_knowledge pick ai c n = Inr ai' \<and> sound B ai'"
proof -
  define ai3 where "ai3 = (mark_safe (ai\<lparr>moves_made := set_add c (moves_made ai)\<rparr>) c)
     \<lparr>knowledge := knowledge (mark_safe (ai\<lparr>moves_made := set_add c (moves_made ai)\<rparr>) c) @
        [\<lparr>cells = mangoes ai c, count = n\<rparr>]\<rparr>"
  have wf3: "wf ai3" using assms(1)
    by (auto simp: ai3_def wf_def distinct_removeAll distinct_mangoes)
  have cl3: "closed ai3" using assms(2)
    by (auto simp: ai3_def closed_def mangoes_filter fresh_nb_def)
  have st: "steady ai3 ai3" by (simp add: steady_def wf3 cl3 frame_refl)
  from assms(3) have f: "facts_ok B ai" by (simp add: sound_def)
  have "ok B \<lparr>cells = mangoes ai c, count = n\<rparr>"
    using mangoes_count [OF f, of c] assms(5) by (simp add: ok_def)
  with assms(3,4) have so3: "sound B ai3"
    by (auto simp: ai3_def sound_def facts_ok_def ok_mark_safe)
  from passes_sound(1) [OF st so3, of pick] obtain ai4
    where r: "for_each (resolve_one pick) [0 ..< length (knowledge ai3)] ai3 = Inr ai4"
      and st4: "steady ai3 ai4" and so4: "sound B ai4" by auto
  from passes_sound(2) [OF st4 so4, of pick] obtain ai5
    where s: "for_each (sweep_one pick) [0 ..< length (knowledge ai3)] ai4 = Inr ai5"
      and so5: "sound B ai5" by auto
  have l4: "length (knowledge ai4) = length (knowledge ai3)" using st4 by (rule steady_length)
  have "add_knowledge pick ai c n =
      (case for_each (resolve_one pick) [0 ..< length (knowledge ai3)] ai3 of
         Inl e \<Rightarrow> Inl e
       | Inr ai4 \<Rightarrow> for_each (sweep_one pick) [0 ..< length (knowledge ai4)] ai4)"
    unfolding add_knowledge_def Let_def ai3_def ..
  with r s l4 so5 show ?thesis by simp
qed

lemma sound_init: "sound B (init h w)"
  by (simp add: sound_def facts_ok_def init_def)

lemma step_sound:
  assumes "wf ai" "closed ai" "sound B ai" "truthful (height ai) (width ai) B opn"
    "step pick ai opn = Inr ai'"
  shows "sound B ai'"
proof (cases opn)
  case (AddKnowledge c n)
  with assms(4) have "c \<notin> B" "n = nearby_mines (height ai) (width ai) B c"
    by (simp_all add: truthful_def)
  from add_knowledge_sound [OF assms(1-3) this, of pick] assms(5) AddKnowledge show ?thesis
    by (auto simp: step_def)
next
  case (MarkSafe c)
  with assms show ?thesis by (auto simp: step_def truthful_def sound_mark_safe)
next
  case (MarkMine c)
  with assms show ?thesis by (auto simp: step_def truthful_def sound_mark_mine)
qed (use assms in \<open>auto simp: step_def\<close>)

lemma play_reachable: "play B ai \<Longrightarrow> reachable ai"
  by (induction rule: play.induct) (auto intro: reachable.intros)

lemma play_sound: "play B ai \<Longrightarrow> sound B ai"
proof (induction rule: play.induct)
  case (start h w)
  show ?case by (rule sound_init)
next
  case (move ai opn pick ai')
  from move.hyps(1) have "wf ai" "closed ai"
    by (simp_all add: play_reachable reachable_wf_closed)
  from step_sound [OF this move.IH move.hyps(2,3)] show ?case .
qed

section \<open>Resolution queries of a sentence\<close>

text \<open>
  C8 (as the code has it). \<open>known_mines\<close> returns the cell set exactly when
  \<open>count = |cells|\<close> and \<open>known_safes\<close> exactly when \<open>count = 0\<close>; neither tests for an
  empty cell set, so the vacuous sentence \<open>({}, 0)\<close> yields the empty set from both,
  not \<open>None\<close>.
\<close>

theorem known_mines_known_safes_spec:
  "known_mines s = (if count s = int (length (cells s)) then Some (cells s) else None) \<and>
   known_safes s = (if count s = 0 then Some (cells s) else None) \<and>
   known_mines \<lparr>cells = [], count = 0\<rparr> = Some [] \<and>
   known_safes \<lparr>cells = [], count = 0\<rparr> = Some []"
  by (auto simp: known_mines_def known_safes_def)

text \<open>
  C8, counterexample: for the vacuous sentence the claim asks for an absent result from
  both queries; the code returns the (empty) cell set.
\<close>

theorem known_mines_vacuous_not_absent:
  "\<not> (known_mines \<lparr>cells = [], count = 0\<rparr> = None \<and>
      known_safes \<lparr>cells = [], count = 0\<rparr> = None)"
  by (simp add: known_mines_def known_safes_def)


lemma example_state_run:
  "run pick_first (init 2 4) [AddKnowledge (0, 0) 3, AddKnowledge (0, 2) 3] = Inr example_state"
  by code_simp

lemma example_state_reachable: "reachable example_state"
  by (rule run_reachable [OF reachable.fresh example_state_run])

section \<open>Subset inference\<close>

text \<open>
  C1 (the code at an input where the claim fails). On a board of height 2 and width 3
  with mines at \<open>(1, 0)\<close> and \<open>(1, 2)\<close>, the calls \<open>add_knowledge((0, 2), 1)\<close>,
  \<open>add_knowledge((0, 0), 1)\<close>, \<open>add_knowledge((0, 1), 2)\<close> leave the sentences
  \<open>{(1,1),(1,2)} = 1\<close>, \<open>{(1,0),(1,1)} = 1\<close> and \<open>{(1,0),(1,1),(1,2)} = 2\<close>. The second is
  a strict subset of the third, yet no sentence \<open>{(1,2)} = 1\<close> is derived and \<open>(1, 2)\<close>
  is not in \<open>mines\<close>: \<open>add_knowledge\<close> has no subset inference.
\<close>

theorem subset_inference_missing:
  "run pick_first (init 2 3) [AddKnowledge (0, 2) 1, AddKnowledge (0, 0) 1, AddKnowledge (0, 1) 2] =
     Inr \<lparr>height = 2, width = 3, moves_made = [(0, 2), (0, 0), (0, 1)],
          mines = [], safes = [(0, 2), (0, 0), (0, 1)],
          knowledge =
            [\<lparr>cells = [(1, 1), (1, 2)], count = 1\<rparr>,
             \<lparr>cells = [(1, 0), (1, 1)], count = 1\<rparr>,
             \<lparr>cells = [(1, 0), (1, 1), (1, 2)], count = 2\<rparr>]\<rparr>"
  by code_simp

section \<open>Sentences and known cells\<close>




section \<open>Resolution within one call\<close>

text \<open>
  C5 (the code at an input where the claim fails). On a board of height 1 and width 4
  with its only mine at \<open>(0, 0)\<close>, \<open>add_knowledge((0, 1), 1)\<close> leaves \<open>{(0,0),(0,2)} = 1\<close>;
  \<open>add_knowledge((0, 3), 0)\<close> then marks \<open>(0, 2)\<close> safe, which turns the first sentence
  into \<open>{(0,0)} = 1\<close> after the first pass has visited it. The call returns with that
  sentence unresolved and \<open>(0, 0)\<close> not in \<open>mines\<close>.
\<close>

theorem all_mines_left_unresolved:
  "run pick_first (init 1 4) [AddKnowledge (0, 1) 1, AddKnowledge (0, 3) 0] =
     Inr \<lparr>height = 1, width = 4, moves_made = [(0, 1), (0, 3)], mines = [],
          safes = [(0, 1), (0, 3), (0, 2)],
          knowledge = [\<lparr>cells = [(0, 0)], count = 1\<rparr>, \<lparr>cells = [], count = 0\<rparr>]\<rparr>"
  by code_simp

section \<open>Random moves\<close>

text \<open>
  C6 (the code at inputs where the claim fails). On a 2 by 2 board after
  \<open>add_knowledge((0, 0), 1)\<close> the cells \<open>(0, 1)\<close>, \<open>(1, 0)\<close>, \<open>(1, 1)\<close> are neither moves
  made nor known mines, yet \<open>make_random_move\<close> returns \<open>None\<close>; so it does on a fresh
  1 by 1 board. On a fresh 3 by 3 board it returns \<open>(0, 0)\<close>, the first cell of its scan.
\<close>

theorem make_random_move_misses_last_row_and_column:
  "run pick_first (init 2 2) [AddKnowledge (0, 0) 1] =
     Inr \<lparr>height = 2, width = 2, moves_made = [(0, 0)], mines = [], safes = [(0, 0)],
          knowledge = [\<lparr>cells = [(0, 1), (1, 0), (1, 1)], count = 1\<rparr>]\<rparr> \<and>
   make_random_move \<lparr>height = 2, width = 2, moves_made = [(0, 0)], mines = [], safes = [(0, 0)],
          knowledge = [\<lparr>cells = [(0, 1), (1, 0), (1, 1)], count = 1\<rparr>]\<rparr> = None \<and>
   make_random_move (init 1 1) = None \<and>
   make_random_move (init 3 3) = Some (0, 0)"
  by code_simp

section \<open>Marking a cell twice\<close>

text \<open>
  C7 (as the code has it). In every reachable state \<open>mark_safe\<close> of a cell already in
  \<open>safes\<close> changes nothing. \<open>mark_safe\<close> and \<open>mark_mine\<close> change nothing when repeated
  at once, and \<open>mark_mine\<close> of a cell already in \<open>mines\<close> changes nothing when no
  sentence contains the cell.
\<close>

theorem mark_idempotent_when_absent:
  "(reachable ai \<and> c \<in> set (safes ai) \<longrightarrow> mark_safe ai c = ai) \<and>
   mark_safe (mark_safe ai c) c = mark_safe ai c \<and>
   mark_mine (mark_mine ai c) c = mark_mine ai c \<and>
   (c \<in> set (mines ai) \<and> (\<forall>e \<in> set (knowledge ai). c \<notin> set (cells e)) \<longrightarrow> mark_mine ai c = ai)"
proof -
  have absent: "map (\<lambda>s. Sentence_mark_safe s c) ks = ks" "map (\<lambda>s. Sentence_mark_mine s c) ks = ks"
    if "\<forall>e \<in> set ks. c \<notin> set (cells e)" for ks :: "Sentence list"
    using that by (simp_all add: map_idI Sentence_mark_safe_def Sentence_mark_mine_def)
  have 1: "mark_safe ai c = ai" if "reachable ai" "c \<in> set (safes ai)"
  proof -
    from that(1) have "closed ai" by (simp add: reachable_wf_closed)
    with that(2) have "\<forall>e \<in> set (knowledge ai). c \<notin> set (cells e)"
      by (auto simp: closed_def)
    with that(2) show ?thesis by (simp add: mark_safe_def absent set_add_def)
  qed
  have 2: "mark_safe (mark_safe ai c) c = mark_safe ai c"
    by (simp add: mark_safe_def set_add_def Sentence_mark_safe_def)
  have 3: "mark_mine (mark_mine ai c) c = mark_mine ai c"
    by (simp add: mark_mine_def set_add_def Sentence_mark_mine_def)
  have 4: "mark_mine ai c = ai"
    if "c \<in> set (mines ai)" "\<forall>e \<in> set (knowledge ai). c \<notin> set (cells e)"
    using that by (simp add: mark_mine_def absent set_add_def)
  from 1 2 3 4 show ?thesis by blast
qed

text \<open>
  C7, witness: in the example state \<open>(0, 0)\<close> is safe, \<open>(1, 0)\<close> is a known mine that
  no sentence contains, and marking either again changes nothing.
\<close>

theorem mark_idempotent_when_absent_witness:
  "reachable example_state \<and> (0, 0) \<in> set (safes example_state) \<and>
   mark_safe example_state (0, 0) = example_state \<and>
   (1, 0) \<in> set (mines example_state) \<and>
   (1, 0) \<notin> set (cells (knowledge example_state ! 0)) \<and>
   (1, 0) \<notin> set (cells (knowledge example_state ! 1)) \<and>
   mark_mine example_state (1, 0) = example_state"
proof -
  have s: "(0, 0) \<in> set (safes example_state)" "(1, 0) \<in> set (mines example_state)"
    "\<forall>e \<in> set (knowledge example_state). (1, 0) \<notin> set (cells e)"
    "(1, 0) \<notin> set (cells (knowledge example_state ! 0))"
    "(1, 0) \<notin> set (cells (knowledge example_state ! 1))"
    by (simp_all add: example_state_def)
  from mark_idempotent_when_absent [of example_state "(0, 0)"]
    mark_idempotent_when_absent [of example_state "(1, 0)"] example_state_reachable s
  show ?thesis by blast
qed

text \<open>
  C7, counterexample: in the example state \<open>(0, 1)\<close> is a known mine, and
  \<open>mark_mine((0, 1))\<close> removes it from the second sentence and lowers its count to 2.
\<close>

theorem mark_mine_again_changes_sentence:
  "run pick_first (init 2 4) [AddKnowledge (0, 0) 3, AddKnowledge (0, 2) 3] =
     Inr \<lparr>height = 2, width = 4, moves_made = [(0, 0), (0, 2)],
          mines = [(0, 1), (1, 0), (1, 1)], safes = [(0, 0), (0, 2)],
          knowledge =
            [\<lparr>cells = [], count = 3\<rparr>,
             \<lparr>cells = [(0, 1), (0, 3), (1, 1), (1, 2), (1, 3)], count = 3\<rparr>]\<rparr> \<and>
   mark_mine \<lparr>height = 2, width = 4, moves_made = [(0, 0), (0, 2)],
          mines = [(0, 1), (1, 0), (1, 1)], safes = [(0, 0), (0, 2)],
          knowledge =
            [\<lparr>cells = [], count = 3\<rparr>,
             \<lparr>cells = [(0, 1), (0, 3), (1, 1), (1, 2), (1, 3)], count = 3\<rparr>]\<rparr> (0, 1) =
     \<lparr>height = 2, width = 4, moves_made = [(0, 0), (0, 2)],
          mines = [(0, 1), (1, 0), (1, 1)], safes = [(0, 0), (0, 2)],
          knowledge =
            [\<lparr>cells = [], count = 3\<rparr>,
             \<lparr>cells = [(0, 3), (1, 1), (1, 2), (1, 3)], count = 2\<rparr>]\<rparr>"
  by code_simp

section \<open>Arguments \<open>add_knowledge\<close> accepts\<close>

text \<open>
  C9 (as the code has it). \<open>add_knowledge\<close> checks nothing about its cell: in every
  reachable state, for every cell (on the board or not, a move made or not) and every
  count, it returns normally, with the cell in \<open>moves_made\<close> and \<open>safes\<close> and one more
  sentence. No \<open>pop\<close> inside it meets an empty set.
\<close>

theorem add_knowledge_never_fails:
  "reachable ai \<Longrightarrow>
     \<exists>ai'. add_knowledge pick ai c n = Inr ai' \<and>
       c \<in> set (moves_made ai') \<and> c \<in> set (safes ai') \<and>
       length (knowledge ai') = Suc (length (knowledge ai))"
proof -
  assume "reachable ai"
  then have "wf ai" "closed ai" by (simp_all add: reachable_wf_closed)
  from add_knowledge_steady [OF this, of pick c n] show ?thesis by auto
qed

text \<open>C9, witness: a cell off a fresh 1 by 1 board.\<close>

theorem add_knowledge_never_fails_witness:
  "reachable (init 1 1) \<and>
     (\<exists>ai'. add_knowledge pick_first (init 1 1) (5, 5) 0 = Inr ai' \<and>
       (5, 5) \<in> set (moves_made ai') \<and> (5, 5) \<in> set (safes ai') \<and>
       length (knowledge ai') = Suc (length (knowledge (init 1 1))))"
  using add_knowledge_never_fails [OF reachable.fresh, of pick_first 1 1 "(5, 5)" 0]
  by (simp add: reachable.fresh)

text \<open>
  C9, counterexample: \<open>add_knowledge((5, 5), 0)\<close>, twice, on a 1 by 1 board: the cell is
  off the board, and in \<open>moves_made\<close> the second time; both calls return normally.
\<close>

theorem add_knowledge_accepts_bad_cells:
  "run pick_first (init 1 1) [AddKnowledge (5, 5) 0, AddKnowledge (5, 5) 0] =
     Inr \<lparr>height = 1, width = 1, moves_made = [(5, 5)], mines = [], safes = [(5, 5)],
          knowledge = [\<lparr>cells = [], count = 0\<rparr>, \<lparr>cells = [], count = 0\<rparr>]\<rparr>"
  by code_simp

section \<open>The length of the knowledge list\<close>

text \<open>
  C10. Any sequence of public operations run from a reachable state completes, and
  its final knowledge list is longer than the initial one by the number of
  \<open>add_knowledge\<close> calls in it: each such call appends one sentence (whatever its
  candidate set), and nothing removes one.
\<close>

theorem one_sentence_per_add_knowledge:
  "reachable ai \<Longrightarrow>
     \<exists>ai'. run pick ai ops = Inr ai' \<and>
       length (knowledge ai') = length (knowledge ai) + adds ops"
proof -
  assume "reachable ai"
  then have "wf ai" "closed ai" by (simp_all add: reachable_wf_closed)
  then show ?thesis by (rule run_total)
qed

text \<open>C10, witness: six operations on a 1 by 1 board, two of them \<open>add_knowledge\<close>.\<close>

theorem one_sentence_per_add_knowledge_witness:
  "reachable (init 1 1) \<and>
     (\<exists>ai'. run pick_first (init 1 1) [AddKnowledge (0, 0) 0, MarkMine (3, 3), MakeRandomMove,
                AddKnowledge (0, 0) 0, MarkSafe (2, 2), MakeSafeMove] = Inr ai' \<and>
       length (knowledge ai') = 2)"
proof -
  let ?ops = "[AddKnowledge (0, 0) 0, MarkMine (3, 3), MakeRandomMove,
                AddKnowledge (0, 0) 0, MarkSafe (2, 2), MakeSafeMove]"
  have r: "reachable (init 1 1)" by (rule reachable.fresh)
  from one_sentence_per_add_knowledge [OF r, of pick_first ?ops] obtain ai'
    where run: "run pick_first (init 1 1) ?ops = Inr ai'"
      and len: "length (knowledge ai') = length (knowledge (init 1 1)) + adds ?ops" by blast
  from len have "length (knowledge ai') = 2" by (simp add: init_def)
  with r run show ?thesis by blast
qed


section \<open>Truthful play\<close>


lemma strip_state_play: "play {(0, 1)} strip_state"
proof -
  have "truthful (height (init 1 2)) (width (init 1 2)) {(0, 1)} (AddKnowledge (0, 0) 1)"
    by (simp add: truthful_def nearby_mines_def nearby_def in_bounds_def init_def)
  moreover have "step pick_first (init 1 2) (AddKnowledge (0, 0) 1) = Inr strip_state"
    by code_simp
  ultimately show ?thesis by (rule play.move [OF play.start])
qed




text \<open>
  C4 (as the code has it). When every operation is truthful for a board \<open>B\<close>, every
  known mine is a mine of \<open>B\<close> and no safe cell is, so \<open>safes\<close> and \<open>mines\<close> are disjoint.
\<close>

theorem truthful_play_safes_mines_disjoint:
  "play B ai \<Longrightarrow>
     set (mines ai) \<subseteq> B \<and> set (safes ai) \<inter> B = {} \<and> set (safes ai) \<inter> set (mines ai) = {}"
proof -
  assume "play B ai"
  then have "facts_ok B ai" by (simp add: play_sound [unfolded sound_def])
  then show ?thesis by (auto simp: facts_ok_def)
qed

text \<open>C4, witness: the 1 by 2 example, with \<open>(0, 0)\<close> safe and \<open>(0, 1)\<close> a known mine.\<close>

theorem truthful_play_safes_mines_disjoint_witness:
  "play {(0, 1)} strip_state \<and> set (mines strip_state) \<subseteq> {(0, 1)} \<and>
   set (safes strip_state) \<inter> {(0, 1)} = {} \<and>
   set (safes strip_state) \<inter> set (mines strip_state) = {}"
  using truthful_play_safes_mines_disjoint [OF strip_state_play] strip_state_play
  by blast

text \<open>
  C4, counterexample: \<open>mark_safe((0, 0))\<close> followed by \<open>mark_mine((0, 0))\<close> puts the
  cell in both sets; so do \<open>add_knowledge((0, 0), 3)\<close> and \<open>add_knowledge((0, 1), 0)\<close> on
  a 2 by 2 board, for \<open>(0, 1)\<close>, \<open>(1, 0)\<close> and \<open>(1, 1)\<close>.
\<close>

theorem safes_and_mines_overlap:
  "run pick_first (init 1 1) [MarkSafe (0, 0), MarkMine (0, 0)] =
     Inr \<lparr>height = 1, width = 1, moves_made = [], mines = [(0, 0)], safes = [(0, 0)],
          knowledge = []\<rparr> \<and>
   run pick_first (init 2 2) [AddKnowledge (0, 0) 3, AddKnowledge (0, 1) 0] =
     Inr \<lparr>height = 2, width = 2, moves_made = [(0, 0), (0, 1)],
          mines = [(0, 1), (1, 0), (1, 1)], safes = [(0, 0), (0, 1), (1, 0), (1, 1)],
          knowledge = [\<lparr>cells = [], count = 3\<rparr>, \<lparr>cells = [], count = 0\<rparr>]\<rparr>"
  by code_simp

end
